theory Spec2Isabelle
  imports Main
begin

section \<open>Data model (types.ts)\<close>

text \<open>
  Text is a list of characters; a JavaScript \<open>number\<close> that the program only ever uses as a
  non-negative integer (identifier counters, indices, line numbers, delays, time stamps) is a
  \<open>nat\<close>, the remaining time of a timer, which is decremented below zero, an \<open>int\<close>.
  An optional field (\<open>delay?\<close>, \<open>children?\<close>, \<open>line?\<close>, ...) is an \<open>option\<close>.
\<close>

datatype TaskType = LOG | TIMEOUT | PROMISE | MAIN

datatype Task = Task
  (id_t: string)
  (type_t: TaskType)
  (content: string)
  (delay: "nat option")
  (children: "Task list option")
  (line: "nat option")

text \<open>\<open>WebApiTask extends Task\<close>: the fields of the task, a start time and a remaining time.\<close>

record WebApiTask =
  task :: Task
  startTime :: nat
  remainingTime :: int

record CallStackFrame =
  id_f :: string
  name :: string
  type_f :: TaskType
  linesOfCode :: "Task list option"
  currentLineIndex :: "nat option"
  highlightLine :: "nat option"

record EngineState =
  code :: string
  parsedTasks :: "Task list"
  callStack :: "CallStackFrame list"
  webApis :: "WebApiTask list"
  microtaskQueue :: "Task list"
  macrotaskQueue :: "Task list"
  consoleOutput :: "string list"
  isRunning :: bool
  speed :: nat
  isFinished :: bool
  activeLine :: "nat option"

text \<open>A failure raised by the JavaScript runtime: reading a property of \<open>undefined\<close>.\<close>

datatype error = TypeError

section \<open>Rendering numbers\<close>

text \<open>The decimal rendering of a number inside a template literal.\<close>

fun digit_char :: "nat \<Rightarrow> char" where
  "digit_char n = char_of (48 + n)"

fun show_nat :: "nat \<Rightarrow> string" where
  "show_nat n = (if n < 10 then [digit_char n] else show_nat (n div 10) @ [digit_char (n mod 10)])"

declare show_nat.simps [simp del]

section \<open>The execution engine (App.tsx)\<close>

text \<open>JavaScript truthiness of an optional number: defined and not zero.\<close>

fun truthy :: "nat option \<Rightarrow> bool" where
  "truthy None = False"
| "truthy (Some n) = (n \<noteq> 0)"

text \<open>\<open>x || null\<close> on an optional number.\<close>

fun or_null :: "nat option \<Rightarrow> nat option" where
  "or_null x = (if truthy x then x else None)"

text \<open>\<open>task.delay || 0\<close> and \<open>task.children || []\<close>.\<close>

fun or_zero :: "nat option \<Rightarrow> nat" where
  "or_zero None = 0"
| "or_zero (Some d) = d"

fun or_empty :: "Task list option \<Rightarrow> Task list" where
  "or_empty None = []"
| "or_empty (Some ts) = ts"

text \<open>
  The entry that the \<open>PROMISE\<close> case of \<open>step\<close> builds: its identifier is the template
  \<open>micro-${Date.now()}-${Math.random()}\<close>. The clock reading \<open>now\<close> and the rendering
  \<open>rnd\<close> of the random number are inputs of the step.
\<close>

definition microTask :: "nat \<Rightarrow> string \<Rightarrow> Task \<Rightarrow> Task" where
  "microTask now rnd t =
     Task (''micro-'' @ show_nat now @ ''-'' @ rnd)
          PROMISE
          (if content t = ''process.nextTick'' then ''process.nextTick'' else ''Promise Callback'')
          None
          (children t)
          (line t)"

text \<open>
  The instruction dispatch of \<open>step\<close> (the \<open>switch\<close> on \<open>task.type\<close>): it works on the
  local copies of the pending set, the microtask queue and the output log.
\<close>

fun execute :: "nat \<Rightarrow> string \<Rightarrow> Task \<Rightarrow> WebApiTask list \<times> Task list \<times> string list
    \<Rightarrow> WebApiTask list \<times> Task list \<times> string list" where
  "execute now rnd t (apis, microQueue, consoleOut) =
     (case type_t t of
        LOG \<Rightarrow> (apis, microQueue, consoleOut @ [content t])
      | TIMEOUT \<Rightarrow>
          (apis @ [\<lparr>task = t, startTime = now, remainingTime = int (or_zero (delay t))\<rparr>],
           microQueue, consoleOut)
      | PROMISE \<Rightarrow>
          (if children t \<noteq> None
           then (apis, microQueue @ [microTask now rnd t], consoleOut)
           else (apis, microQueue, consoleOut))
      | MAIN \<Rightarrow> (apis, microQueue, consoleOut))"

definition step :: "nat \<Rightarrow> string \<Rightarrow> EngineState \<Rightarrow> error + EngineState" where
  "step now rnd prev =
     (let stack = callStack prev;
          microQueue = microtaskQueue prev;
          macroQueue = macrotaskQueue prev
      in
      if stack \<noteq> [] then
        (let frame = last stack in
         case linesOfCode frame of
           None \<Rightarrow> Inr (prev\<lparr>callStack := butlast stack, activeLine := None\<rparr>)
         | Some loc \<Rightarrow>
            (case currentLineIndex frame of
               None \<Rightarrow> Inl TypeError
             | Some idx \<Rightarrow>
                if idx \<ge> length loc
                then Inr (prev\<lparr>callStack := butlast stack, activeLine := None\<rparr>)
                else
                  (let t = loc ! idx;
                       frame' = frame\<lparr>currentLineIndex := Some (idx + 1)\<rparr>;
                       stack' = butlast stack @ [frame'];
                       activeLine' = (if truthy (line t) then line t else activeLine prev);
                       (apis', microQueue', consoleOut') =
                          execute now rnd t (webApis prev, microQueue, consoleOutput prev)
                   in Inr (prev\<lparr>callStack := stack', webApis := apis',
                                 microtaskQueue := microQueue', consoleOutput := consoleOut',
                                 activeLine := activeLine'\<rparr>))))
      else if microQueue \<noteq> [] then
        (let nextMicro = hd microQueue;
             newFrame = \<lparr>id_f = id_t nextMicro, name = content nextMicro, type_f = PROMISE,
                         linesOfCode = Some (or_empty (children nextMicro)),
                         currentLineIndex = Some 0, highlightLine = line nextMicro\<rparr>
         in Inr (prev\<lparr>callStack := stack @ [newFrame], microtaskQueue := tl microQueue,
                       activeLine := or_null (line nextMicro)\<rparr>))
      else if macroQueue \<noteq> [] then
        (let nextMacro = hd macroQueue;
             newFrame = \<lparr>id_f = id_t nextMacro,
                         name = (if content nextMacro = ''setImmediate''
                                 then ''setImmediate'' else ''setTimeout''),
                         type_f = TIMEOUT,
                         linesOfCode = Some (or_empty (children nextMacro)),
                         currentLineIndex = Some 0, highlightLine = line nextMacro\<rparr>
         in Inr (prev\<lparr>callStack := stack @ [newFrame], macrotaskQueue := tl macroQueue,
                       activeLine := or_null (line nextMacro)\<rparr>))
      else
        (let finished = (webApis prev = []);
             activeLine' = (if finished then None else activeLine prev)
         in Inr (prev\<lparr>isFinished := finished, activeLine := activeLine',
                       isRunning := (if finished then False else isRunning prev)\<rparr>)))"

section \<open>The timer advancer (the Web API timer effect of App.tsx)\<close>

text \<open>
  The label of a promoted timer. The entry pushed on the macrotask queue is the spread of
  the pending entry with \<open>content\<close> replaced; the queue is a \<open>Task[]\<close>, and what the engine
  reads of its entries are fields of \<open>Task\<close>.
\<close>

definition promote :: "WebApiTask \<Rightarrow> Task" where
  "promote api =
     (let t = task api in
      Task (id_t t) (type_t t)
           (if content t = ''setImmediate'' then ''setImmediate'' else ''Timeout Callback'')
           (delay t) (children t) (line t))"

text \<open>The body of \<open>prev.webApis.forEach\<close>, on (updatedWebApis, newMacrotasks, hasChanges).\<close>

fun forEach_api :: "WebApiTask list \<Rightarrow> WebApiTask list \<times> Task list \<times> bool
    \<Rightarrow> WebApiTask list \<times> Task list \<times> bool" where
  "forEach_api [] acc = acc"
| "forEach_api (api # rest) (updatedWebApis, newMacrotasks, hasChanges) =
     (if remainingTime api \<le> 0
      then forEach_api rest (updatedWebApis, newMacrotasks @ [promote api], True)
      else forEach_api rest
             (updatedWebApis @ [api\<lparr>remainingTime := remainingTime api - 100\<rparr>],
              newMacrotasks, True))"

definition tick :: "EngineState \<Rightarrow> EngineState" where
  "tick prev =
     (if webApis prev = [] then prev
      else
        (let (updatedWebApis, newMacrotasks, hasChanges) =
               forEach_api (webApis prev) ([], macrotaskQueue prev, False)
         in if \<not> hasChanges then prev
            else prev\<lparr>webApis := updatedWebApis, macrotaskQueue := newMacrotasks\<rparr>))"

section \<open>Strings\<close>

text \<open>
  A text is the list of its code units, taken below 256 (the type \<open>char\<close>): the characters
  beyond Latin-1 that JavaScript also counts as white space or as line terminators are
  not represented.
\<close>

text \<open>\<open>code.split('\n')\<close>: the pieces between the newlines, one more than there are newlines.\<close>

fun split_lines :: "string \<Rightarrow> string list" where
  "split_lines [] = [[]]"
| "split_lines (c # cs) =
     (if c = CHR 0x0A then [] # split_lines cs
      else (case split_lines cs of [] \<Rightarrow> [[c]] | l # ls \<Rightarrow> (c # l) # ls))"

text \<open>
  White space as \<open>trim\<close> and the class \<open>\s\<close> have it (tab, line feed, vertical tab, form
  feed, carriage return, space, no-break space), the characters that \<open>.\<close> does not match,
  and the class \<open>\d\<close>.
\<close>

definition is_space :: "char \<Rightarrow> bool" where
  "is_space c = (c \<in> set [CHR 0x09, CHR 0x0A, CHR 0x0B, CHR 0x0C, CHR 0x0D, CHR 0x20, CHR 0xA0])"

definition is_line_terminator :: "char \<Rightarrow> bool" where
  "is_line_terminator c = (c = CHR 0x0A \<or> c = CHR 0x0D)"

definition is_digit :: "char \<Rightarrow> bool" where
  "is_digit c = (48 \<le> (of_char c :: nat) \<and> (of_char c :: nat) \<le> 57)"

definition trim :: "string \<Rightarrow> string" where
  "trim s = rev (dropWhile is_space (rev (dropWhile is_space s)))"

text \<open>\<open>s.startsWith(p)\<close> and \<open>s.includes(p)\<close>.\<close>

fun startsWith :: "string \<Rightarrow> string \<Rightarrow> bool" where
  "startsWith s [] = True"
| "startsWith [] (p # ps) = False"
| "startsWith (c # cs) (p # ps) = (c = p \<and> startsWith cs ps)"

fun includes_str :: "string \<Rightarrow> string \<Rightarrow> bool" where
  "includes_str [] p = startsWith [] p"
| "includes_str (c # cs) p = (startsWith (c # cs) p \<or> includes_str cs p)"

section \<open>The regular expressions of the parser\<close>

text \<open>
  \<open>s.match(re)\<close> without the global flag tries the expression at each position of \<open>s\<close>
  from the left and returns the first match: \<open>first_match\<close> of the match anchored at a
  position.
\<close>

fun first_match :: "(string \<Rightarrow> 'a option) \<Rightarrow> string \<Rightarrow> 'a option" where
  "first_match f [] = f []"
| "first_match f (c # cs) = (case f (c # cs) of Some x \<Rightarrow> Some x | None \<Rightarrow> first_match f cs)"

definition strip_prefix :: "string \<Rightarrow> string \<Rightarrow> string option" where
  "strip_prefix p s = (if startsWith s p then Some (drop (length p) s) else None)"

text \<open>
  \<open>\s*\<close> before a character that is not white space: the greedy match is the only one
  that can go on.
\<close>

definition skip_space :: "string \<Rightarrow> string" where
  "skip_space s = dropWhile is_space s"

text \<open>
  \<open>/console\.log\((['"`])(.+?)\1\)/\<close>, anchored: after the call and a quote \<open>q\<close>, the lazy
  group \<open>(.+?)\<close> takes one character that is not a line terminator, then one more at a
  time, until the quote \<open>q\<close> and a closing parenthesis follow; the result is the group.
\<close>

fun lazy_body :: "char \<Rightarrow> string \<Rightarrow> string \<Rightarrow> string option" where
  "lazy_body q acc [] = None"
| "lazy_body q acc (c # cs) =
     (if is_line_terminator c then None
      else if startsWith cs [q, CHR '')''] then Some (acc @ [c])
      else lazy_body q (acc @ [c]) cs)"

definition log_at :: "string \<Rightarrow> string option" where
  "log_at s =
     (case strip_prefix ''console.log('' s of
        None \<Rightarrow> None
      | Some r \<Rightarrow>
         (case r of
            [] \<Rightarrow> None
          | q # body \<Rightarrow>
             if q = CHR 0x27 \<or> q = CHR 0x22 \<or> q = CHR 0x60 then lazy_body q [] body else None))"

definition logMatch :: "string \<Rightarrow> string option" where
  "logMatch rawLine = first_match log_at rawLine"

text \<open>\<open>\s*\(\)\s*=>\s*\{\<close>, anchored: the zero-argument lambda and its brace.\<close>

definition arrow_open :: "string \<Rightarrow> bool" where
  "arrow_open s =
     (case strip_prefix ''()'' (skip_space s) of
        None \<Rightarrow> False
      | Some r \<Rightarrow>
         (case strip_prefix ''=>'' (skip_space r) of
            None \<Rightarrow> False
          | Some r' \<Rightarrow> startsWith (skip_space r') ''{''))"

text \<open>A callee, an opening parenthesis and the lambda, anchored.\<close>

definition call_open :: "string \<Rightarrow> string \<Rightarrow> unit option" where
  "call_open callee s =
     (case strip_prefix callee s of
        None \<Rightarrow> None
      | Some r \<Rightarrow>
         (case strip_prefix ''('' r of
            None \<Rightarrow> None
          | Some r' \<Rightarrow> if arrow_open r' then Some () else None))"

text \<open>
  \<open>/setTimeout\(\s*\(\)\s*=>\s*\{/\<close>, \<open>/setImmediate\(\s*\(\)\s*=>\s*\{/\<close> and
  \<open>/(Promise\.resolve\(\)\.then|queueMicrotask|process\.nextTick)\(\s*\(\)\s*=>\s*\{/\<close>;
  the parser only tests whether they match.
\<close>

definition timeoutStart :: "string \<Rightarrow> bool" where
  "timeoutStart rawLine = (first_match (call_open ''setTimeout'') rawLine \<noteq> None)"

definition immediateStart :: "string \<Rightarrow> bool" where
  "immediateStart rawLine = (first_match (call_open ''setImmediate'') rawLine \<noteq> None)"

definition microStart :: "string \<Rightarrow> bool" where
  "microStart rawLine =
     (first_match (\<lambda>s. case call_open ''Promise.resolve().then'' s of
                         Some u \<Rightarrow> Some u
                       | None \<Rightarrow>
                          (case call_open ''queueMicrotask'' s of
                             Some u \<Rightarrow> Some u
                           | None \<Rightarrow> call_open ''process.nextTick'' s)) rawLine \<noteq> None)"

text \<open>
  \<open>parseInt(ds, 10)\<close> on a non-empty string of digits, as an unbounded number (beyond
  \<open>2^53\<close> the JavaScript value is rounded).
\<close>

definition parseInt :: "string \<Rightarrow> nat" where
  "parseInt ds = foldl (\<lambda>n c. 10 * n + (of_char c - 48)) 0 ds"

text \<open>
  \<open>/\},\s*(\d+)\);?/\<close>, anchored: close brace, comma, white space, the digits (all of them,
  since a closing parenthesis has to follow), closing parenthesis; the result is the number.
\<close>

definition delay_at :: "string \<Rightarrow> nat option" where
  "delay_at s =
     (case strip_prefix ''},'' s of
        None \<Rightarrow> None
      | Some r \<Rightarrow>
         (let r' = skip_space r; ds = takeWhile is_digit r' in
          if ds \<noteq> [] \<and> startsWith (dropWhile is_digit r') '')''
          then Some (parseInt ds) else None))"

definition delayMatch :: "string \<Rightarrow> nat option" where
  "delayMatch closingLine = first_match delay_at closingLine"

section \<open>The parser (utils/parser.ts)\<close>

text \<open>
  \<open>genId\<close> renders the module-level counter \<open>idCounter\<close> and increments it; the counter
  is passed along explicitly, and the caller adds one.
\<close>

definition genId :: "nat \<Rightarrow> string" where
  "genId idCounter = ''task-'' @ show_nat idCounter"

text \<open>\<open>lines[i]\<close>: \<open>undefined\<close> out of range.\<close>

definition nth_opt :: "'a list \<Rightarrow> nat \<Rightarrow> 'a option" where
  "nth_opt xs i = (if i < length xs then Some (xs ! i) else None)"

text \<open>
  The scan for the closing line, from \<open>balance\<close> at line \<open>j\<close>: the loop
  \<open>for (; j < endLine; j++) { if (lines[j].includes('{')) balance++;
  if (lines[j].includes('}')) balance--; if (balance === 0) break; }\<close>
  and the value of \<open>j\<close> after it. Calling a method of \<open>lines[j]\<close> when it is \<open>undefined\<close>
  raises a \<open>TypeError\<close>. The three callback branches of \<open>parseBlock\<close> hold the same loop.
\<close>

function findClose :: "string list \<Rightarrow> nat \<Rightarrow> nat \<Rightarrow> int \<Rightarrow> error + nat" where
  "findClose lines j endLine balance =
     (if j < endLine then
        (case nth_opt lines j of
           None \<Rightarrow> Inl TypeError
         | Some l \<Rightarrow>
            (let b1 = (if includes_str l ''{'' then balance + 1 else balance);
                 b2 = (if includes_str l ''}'' then b1 - 1 else b1)
             in if b2 = 0 then Inr j else findClose lines (j + 1) endLine b2))
      else Inr j)"
  by pat_completeness auto
termination
  by (relation "measure (\<lambda>(lines, j, endLine, balance). endLine - j)") auto

declare findClose.simps [simp del]

lemma findClose_bounds:
  "findClose lines j endLine b = Inr k \<Longrightarrow> j \<le> endLine \<Longrightarrow> j \<le> k \<and> k \<le> endLine"
proof (induction lines j endLine b rule: findClose.induct)
  case (1 lines j endLine balance)
  show ?case
  proof (cases "j < endLine")
    case False
    with "1.prems" show ?thesis by (simp add: findClose.simps)
  next
    case True
    with "1.prems" "1.IH" show ?thesis
      by (subst (asm) findClose.simps)
         (fastforce simp: Let_def split: option.splits if_splits)
  qed
qed

text \<open>
  The three callback branches of \<open>parseBlock\<close> (\<open>setTimeout\<close>, \<open>setImmediate\<close>, the three
  microtask spellings) are the same text up to the pattern they test and the Task they
  push. They are one branch here, over the kind of the opening line, tested in the order
  of the source; \<open>callbackTask\<close> is the Task pushed.
\<close>

datatype opener = SetTimeout | SetImmediate | Microtask

definition opener_of :: "string \<Rightarrow> opener option" where
  "opener_of rawLine =
     (if timeoutStart rawLine then Some SetTimeout
      else if immediateStart rawLine then Some SetImmediate
      else if microStart rawLine then Some Microtask
      else None)"

text \<open>\<open>lines[j] || ''\<close>.\<close>

definition closingLine :: "string list \<Rightarrow> nat \<Rightarrow> string" where
  "closingLine lines j = (case nth_opt lines j of None \<Rightarrow> [] | Some l \<Rightarrow> l)"

text \<open>The label of a microtask registration: two assignments over the default.\<close>

definition label :: "string \<Rightarrow> string" where
  "label rawLine =
     (let label0 = ''Promise.then'';
          label1 = (if includes_str rawLine ''queueMicrotask'' then ''queueMicrotask'' else label0);
          label2 = (if includes_str rawLine ''process.nextTick'' then ''process.nextTick'' else label1)
      in label2)"

fun callbackTask :: "opener \<Rightarrow> string \<Rightarrow> string \<Rightarrow> string \<Rightarrow> Task list \<Rightarrow> nat \<Rightarrow> Task" where
  "callbackTask SetTimeout rawLine closing ident cs i =
     Task ident TIMEOUT ''setTimeout''
          (Some (case delayMatch closing of Some d \<Rightarrow> d | None \<Rightarrow> 0)) (Some cs) (Some (i + 1))"
| "callbackTask SetImmediate rawLine closing ident cs i =
     Task ident TIMEOUT ''setImmediate'' (Some 0) (Some cs) (Some (i + 1))"
| "callbackTask Microtask rawLine closing ident cs i =
     Task ident PROMISE (label rawLine) None (Some cs) (Some (i + 1))"

text \<open>
  \<open>parseBlock(lines, startLine, endLine)\<close> is the loop below started at \<open>i = startLine\<close> with
  no Task collected; the loop carries the line index, the identifier counter and
  \<open>blockTasks\<close>. A callback branch scans for the closing line \<open>j\<close>, parses the lines strictly
  between, draws the identifier of the Task after those of its body, and goes on at
  \<open>j + 1\<close>.
\<close>

function parseBlock :: "string list \<Rightarrow> nat \<Rightarrow> nat \<Rightarrow> nat \<Rightarrow> Task list
    \<Rightarrow> error + Task list \<times> nat" where
  "parseBlock lines i endLine idCounter blockTasks =
     (if i < endLine then
        (case nth_opt lines i of
           None \<Rightarrow> Inl TypeError
         | Some l \<Rightarrow>
            (let rawLine = trim l in
             if rawLine = [] \<or> startsWith rawLine ''//''
             then parseBlock lines (i + 1) endLine idCounter blockTasks
             else
               (case logMatch rawLine of
                  Some msg \<Rightarrow>
                    parseBlock lines (i + 1) endLine (idCounter + 1)
                      (blockTasks @ [Task (genId idCounter) LOG msg None None (Some (i + 1))])
                | None \<Rightarrow>
                   (case opener_of rawLine of
                      None \<Rightarrow> parseBlock lines (i + 1) endLine idCounter blockTasks
                    | Some k \<Rightarrow>
                       (case findClose lines (i + 1) endLine 1 of
                          Inl e \<Rightarrow> Inl e
                        | Inr j \<Rightarrow>
                           (case parseBlock lines (i + 1) j idCounter [] of
                              Inl e \<Rightarrow> Inl e
                            | Inr (cs, idCounter') \<Rightarrow>
                                parseBlock lines (j + 1) endLine (idCounter' + 1)
                                  (blockTasks @ [callbackTask k rawLine (closingLine lines j)
                                                   (genId idCounter') cs i])))))))
      else Inr (blockTasks, idCounter))"
  by pat_completeness auto
termination
  by (relation "measure (\<lambda>(lines, i, endLine, idCounter, blockTasks). endLine - i)")
     (auto dest: findClose_bounds)

declare parseBlock.simps [simp del]

text \<open>
  \<open>parseCode\<close> takes the text and the value of the module-level counter when it is called,
  which it overwrites with 0; it returns the Task sequence and the counter it leaves.
\<close>

definition parseCode :: "string \<Rightarrow> nat \<Rightarrow> error + Task list \<times> nat" where
  "parseCode source idCounter0 =
     (let idCounter = 0; lines = split_lines source
      in parseBlock lines 0 (length lines) idCounter [])"

section \<open>Notions used to state the properties of the parser\<close>

text \<open>All the Tasks of a tree: a Task, then those of its body.\<close>

fun subtasks :: "Task \<Rightarrow> Task list" where
  "subtasks (Task i ty c d ch l) =
     Task i ty c d ch l # (case ch of None \<Rightarrow> [] | Some cs \<Rightarrow> concat (map subtasks cs))"

text \<open>The identifiers of all the Tasks of a Task sequence.\<close>

definition ids_of :: "Task list \<Rightarrow> string set" where
  "ids_of ts = id_t ` set (concat (map subtasks ts))"

text \<open>
  A line that the parser recognises: after trimming it is neither empty nor a comment, and it
  matches the log pattern or one of the three callback-opening patterns.
\<close>

definition recognised :: "string \<Rightarrow> bool" where
  "recognised l =
     (let rawLine = trim l in
      rawLine \<noteq> [] \<and> \<not> startsWith rawLine ''//'' \<and>
      (logMatch rawLine \<noteq> None \<or> opener_of rawLine \<noteq> None))"

text \<open>
  What one scanned line adds to the balance in \<open>findClose\<close>: one up when it contains an
  open brace, one down when it contains a close brace.
\<close>

definition line_delta :: "string \<Rightarrow> int" where
  "line_delta l =
     (if includes_str l ''{'' then 1 else 0) - (if includes_str l ''}'' then 1 else 0)"

text \<open>The balance after the lines \<open>s, ..., k\<close> have been scanned, from the balance \<open>b\<close>.\<close>

definition balance_after :: "int \<Rightarrow> string list \<Rightarrow> nat \<Rightarrow> nat \<Rightarrow> int" where
  "balance_after b lines s k = b + sum_list (map (\<lambda>n. line_delta (lines ! n)) [s..<Suc k])"

text \<open>
  The scan as the specification words it, for comparison: the balance goes up by one for
  every occurrence of an open brace and down by one for every occurrence of a close brace.
\<close>

definition count_char :: "char \<Rightarrow> string \<Rightarrow> nat" where
  "count_char c l = length (filter (\<lambda>x. x = c) l)"

function findClose_spec :: "string list \<Rightarrow> nat \<Rightarrow> nat \<Rightarrow> int \<Rightarrow> error + nat" where
  "findClose_spec lines j endLine balance =
     (if j < endLine then
        (case nth_opt lines j of
           None \<Rightarrow> Inl TypeError
         | Some l \<Rightarrow>
            (let b2 = balance + int (count_char (CHR ''{'') l) - int (count_char (CHR ''}'') l)
             in if b2 = 0 then Inr j else findClose_spec lines (j + 1) endLine b2))
      else Inr j)"
  by pat_completeness auto
termination
  by (relation "measure (\<lambda>(lines, j, endLine, balance). endLine - j)") auto

declare findClose_spec.simps [simp del]

text \<open>A timer whose body holds a microtask closed on the line that closes the timer.\<close>

definition ex_two_braces :: "string list" where
  "ex_two_braces =
     [''setTimeout(() => {'',
      ''  queueMicrotask(() => {'',
      ''  }); }, 12);'',
      ''console.log(`D`);'']"


text \<open>\<open>parts.join('\n')\<close>: the text whose lines are the given ones.\<close>

definition join_nl :: "string list \<Rightarrow> string" where
  "join_nl ls =
     (case ls of [] \<Rightarrow> [] | l # rest \<Rightarrow> foldl (\<lambda>acc x. acc @ [CHR 0x0A] @ x) l rest)"


section \<open>Reset, the controls and runs of the engine (App.tsx)\<close>

definition initialState :: EngineState where
  "initialState =
     \<lparr>code = [], parsedTasks = [], callStack = [], webApis = [], microtaskQueue = [],
      macrotaskQueue = [], consoleOutput = [], isRunning = False, speed = 1000,
      isFinished = False, activeLine = None\<rparr>"

text \<open>
  \<open>resetEngine\<close> parses the text and starts from the initial state with the main frame
  on the stack; it keeps the speed of the previous state. The module-level identifier
  counter of the parser is threaded through.
\<close>

definition resetEngine :: "string \<Rightarrow> bool \<Rightarrow> EngineState \<Rightarrow> nat \<Rightarrow> error + EngineState \<times> nat" where
  "resetEngine newCode autoPlay prev idCounter =
     (case parseCode newCode idCounter of
        Inl e \<Rightarrow> Inl e
      | Inr (tasks, idCounter') \<Rightarrow>
         (let mainFrame = \<lparr>id_f = ''main'', name = ''main()'', type_f = MAIN,
                            linesOfCode = Some tasks, currentLineIndex = Some 0,
                            highlightLine = Some 0\<rparr>
          in Inr (initialState\<lparr>code := newCode, parsedTasks := tasks,
                               callStack := [mainFrame], activeLine := None,
                               isRunning := autoPlay, speed := speed prev\<rparr>,
                  idCounter')))"

text \<open>
  The play button: on a finished engine it resets with the text of the editor and starts
  playing, otherwise it flips the running flag. The speed slider sets the speed.
\<close>

definition togglePlay :: "string \<Rightarrow> EngineState \<Rightarrow> nat \<Rightarrow> error + EngineState \<times> nat" where
  "togglePlay editorCode engine idCounter =
     (if isFinished engine then resetEngine editorCode True engine idCounter
      else Inr (engine\<lparr>isRunning := \<not> isRunning engine\<rparr>, idCounter))"

definition handleSpeedChange :: "nat \<Rightarrow> EngineState \<Rightarrow> EngineState" where
  "handleSpeedChange v prev = prev\<lparr>speed := v\<rparr>"

text \<open>
  The two writers of a run: a step, with the clock reading and the random number it draws,
  and a tick of the timer advancer. They are applied one after the other; a run stops at
  the first failure.
\<close>

datatype event = Step nat string | Tick

fun apply_event :: "event \<Rightarrow> EngineState \<Rightarrow> error + EngineState" where
  "apply_event (Step now rnd) s = step now rnd s"
| "apply_event Tick s = Inr (tick s)"

fun run :: "event list \<Rightarrow> EngineState \<Rightarrow> error + EngineState" where
  "run [] s = Inr s"
| "run (e # es) s = (case apply_event e s of Inl err \<Rightarrow> Inl err | Inr s' \<Rightarrow> run es s')"

text \<open>Resetting on a text, then a run.\<close>

definition run_source :: "string \<Rightarrow> event list \<Rightarrow> error + EngineState" where
  "run_source source es =
     (case resetEngine source False initialState 0 of
        Inl e \<Rightarrow> Inl e
      | Inr (s0, n) \<Rightarrow> run es s0)"

text \<open>
  The states of the engine: the state before the first reset, the states after a reset, and
  what steps, ticks and the two controls make of them.
\<close>

inductive reachable :: "EngineState \<Rightarrow> bool" where
  mount: "reachable (initialState\<lparr>code := c\<rparr>)"
| reset: "resetEngine newCode autoPlay prev idCounter = Inr (s, idCounter') \<Longrightarrow> reachable s"
| step: "reachable s \<Longrightarrow> step now rnd s = Inr s' \<Longrightarrow> reachable s'"
| tick: "reachable s \<Longrightarrow> reachable (tick s)"
| toggle: "reachable s \<Longrightarrow> togglePlay editorCode s idCounter = Inr (s', idCounter') \<Longrightarrow>
           reachable s'"
| speed: "reachable s \<Longrightarrow> reachable (handleSpeedChange v s)"

text \<open>The call stack, the pending set and both queues are empty.\<close>

definition all_empty :: "EngineState \<Rightarrow> bool" where
  "all_empty s =
     (callStack s = [] \<and> webApis s = [] \<and> microtaskQueue s = [] \<and> macrotaskQueue s = [])"

text \<open>Scenario A: a single log of A.\<close>

definition source_A :: string where
  "source_A = ''console.log('' @ [CHR 0x27] @ ''A'' @ [CHR 0x27] @ '');''"

text \<open>A microtask registration in each of the three spellings, with an empty body.\<close>

definition source_then :: string where
  "source_then = join_nl [''Promise.resolve().then(() => {'', ''});'']"

definition source_queueMicrotask :: string where
  "source_queueMicrotask = join_nl [''queueMicrotask(() => {'', ''});'']"

definition source_nextTick :: string where
  "source_nextTick = join_nl [''process.nextTick(() => {'', ''});'']"

text \<open>Scenario A after its log has run and the main frame has been popped.\<close>

definition ex_A_drained :: EngineState where
  "ex_A_drained =
     \<lparr>code = source_A, parsedTasks = [Task ''task-0'' LOG ''A'' None None (Some 1)],
      callStack = [], webApis = [], microtaskQueue = [], macrotaskQueue = [],
      consoleOutput = [''A''], isRunning = False, speed = 1000, isFinished = False,
      activeLine = None\<rparr>"

text \<open>The labels in the microtask queue after a reset on a text and one step.\<close>

definition queued_labels :: "string \<Rightarrow> string list" where
  "queued_labels source =
     (case run_source source [Step 0 ''0.5''] of
        Inl e \<Rightarrow> []
      | Inr s \<Rightarrow> map content (microtaskQueue s))"

text \<open>What holds of a state whose finished flag is set.\<close>

definition finished_inv :: "EngineState \<Rightarrow> bool" where
  "finished_inv s = (isFinished s \<longrightarrow> all_empty s \<and> \<not> isRunning s \<and> activeLine s = None)"

text \<open>The state after a reset on the text of one \<open>queueMicrotask\<close> registration.\<close>

definition ex_registering :: EngineState where
  "ex_registering =
     \<lparr>code = source_queueMicrotask,
      parsedTasks = [Task ''task-0'' PROMISE ''queueMicrotask'' None (Some []) (Some 1)],
      callStack = [\<lparr>id_f = ''main'', name = ''main()'', type_f = MAIN,
                     linesOfCode =
                       Some [Task ''task-0'' PROMISE ''queueMicrotask'' None (Some []) (Some 1)],
                     currentLineIndex = Some 0, highlightLine = Some 0\<rparr>],
      webApis = [], microtaskQueue = [], macrotaskQueue = [], consoleOutput = [],
      isRunning = False, speed = 1000, isFinished = False, activeLine = None\<rparr>"

section \<open>Scenario B and an abstraction of the engine state\<close>

text \<open>
  Scenario B: a log of A, a zero-delay timer whose body logs B, a microtask registration
  whose body logs C, a log of D, one construct after the other at top level. The timer is
  given by its opening and closing lines, the microtask registration by its opening line.
\<close>

definition scenario_B :: "string \<times> string \<Rightarrow> string \<Rightarrow> string" where
  "scenario_B timer micro =
     join_nl [''console.log('' @ [CHR 0x27] @ ''A'' @ [CHR 0x27] @ '');'',
              fst timer,
              ''  console.log('' @ [CHR 0x27] @ ''B'' @ [CHR 0x27] @ '');'',
              snd timer,
              micro,
              ''  console.log('' @ [CHR 0x27] @ ''C'' @ [CHR 0x27] @ '');'',
              ''});'',
              ''console.log('' @ [CHR 0x27] @ ''D'' @ [CHR 0x27] @ '');'']"

definition zero_delay_timers :: "(string \<times> string) list" where
  "zero_delay_timers =
     [(''setTimeout(() => {'', ''}, 0);''), (''setImmediate(() => {'', ''});'')]"

definition microtask_spellings :: "string list" where
  "microtask_spellings =
     [''Promise.resolve().then(() => {'', ''queueMicrotask(() => {'',
      ''process.nextTick(() => {'']"

text \<open>The same program as a Task tree, whatever the identifiers, labels and line numbers.\<close>

definition is_log :: "string \<Rightarrow> Task \<Rightarrow> bool" where
  "is_log msg t = (type_t t = LOG \<and> content t = msg)"

definition body_logs :: "string \<Rightarrow> Task \<Rightarrow> bool" where
  "body_logs msg t = (case children t of Some [b] \<Rightarrow> is_log msg b | _ \<Rightarrow> False)"

definition scenario_B_tree :: "Task list \<Rightarrow> bool" where
  "scenario_B_tree ts =
     (case ts of
        [a, t, p, d] \<Rightarrow>
          is_log ''A'' a \<and>
          type_t t = TIMEOUT \<and> or_zero (delay t) = 0 \<and> body_logs ''B'' t \<and>
          type_t p = PROMISE \<and> body_logs ''C'' p \<and>
          is_log ''D'' d
      | _ \<Rightarrow> False)"

text \<open>
  What of a state decides the further output: the instruction list and the cursor of each
  frame, the body and the remaining time of each pending timer, the body of each queue
  entry, the output log and the finished flag. Identifiers, labels, start times, the
  highlighted line and the running flag are left out.
\<close>

type_synonym view =
  "(Task list option \<times> nat option) list \<times> (Task list option \<times> int) list \<times>
   Task list option list \<times> Task list option list \<times> string list \<times> bool"

definition view :: "EngineState \<Rightarrow> view" where
  "view s =
     (map (\<lambda>f. (linesOfCode f, currentLineIndex f)) (callStack s),
      map (\<lambda>w. (children (task w), remainingTime w)) (webApis s),
      map children (microtaskQueue s),
      map children (macrotaskQueue s),
      consoleOutput s,
      isFinished s)"

text \<open>The step and the tick on views.\<close>

definition vexecute :: "Task \<Rightarrow> (Task list option \<times> int) list \<times> Task list option list \<times> string list
    \<Rightarrow> (Task list option \<times> int) list \<times> Task list option list \<times> string list" where
  "vexecute t x =
     (case x of (web, mic, out) \<Rightarrow>
        (case type_t t of
           LOG \<Rightarrow> (web, mic, out @ [content t])
         | TIMEOUT \<Rightarrow> (web @ [(children t, int (or_zero (delay t)))], mic, out)
         | PROMISE \<Rightarrow> (if children t \<noteq> None then (web, mic @ [children t], out)
                       else (web, mic, out))
         | MAIN \<Rightarrow> (web, mic, out)))"

definition vstep :: "view \<Rightarrow> view" where
  "vstep v =
     (case v of (st, web, mic, mac, out, fin) \<Rightarrow>
        if st \<noteq> [] then
          (case last st of
             (None, idx) \<Rightarrow> (butlast st, web, mic, mac, out, fin)
           | (Some loc, None) \<Rightarrow> v
           | (Some loc, Some idx) \<Rightarrow>
               if idx \<ge> length loc then (butlast st, web, mic, mac, out, fin)
               else (case vexecute (loc ! idx) (web, mic, out) of
                       (web', mic', out') \<Rightarrow>
                         (butlast st @ [(Some loc, Some (idx + 1))], web', mic', mac, out', fin)))
        else if mic \<noteq> [] then
          (st @ [(Some (or_empty (hd mic)), Some 0)], web, tl mic, mac, out, fin)
        else if mac \<noteq> [] then
          (st @ [(Some (or_empty (hd mac)), Some 0)], web, mic, tl mac, out, fin)
        else (st, web, mic, mac, out, web = []))"

definition vtick :: "view \<Rightarrow> view" where
  "vtick v =
     (case v of (st, web, mic, mac, out, fin) \<Rightarrow>
        (st,
         map (\<lambda>w. (fst w, snd w - 100)) (filter (\<lambda>w. 0 < snd w) web),
         mic,
         mac @ map fst (filter (\<lambda>w. snd w \<le> 0) web),
         out, fin))"

text \<open>
  The views of Scenario B: the main frame at each of its cursors, then the frame of the
  microtask, then the frame of the timer, with the timer pending or promoted meanwhile.
\<close>

definition phases :: "Task list \<Rightarrow> Task \<Rightarrow> Task \<Rightarrow> view list" where
  "phases ts b c =
     [([(Some ts, Some 0)], [], [], [], [], False),
      ([(Some ts, Some 1)], [], [], [], [''A''], False)]
     @ concat (map (\<lambda>(web, mac).
         [([(Some ts, Some 2)], web, [], mac, [''A''], False),
          ([(Some ts, Some 3)], web, [Some [c]], mac, [''A''], False),
          ([(Some ts, Some 4)], web, [Some [c]], mac, [''A'', ''D''], False),
          ([], web, [Some [c]], mac, [''A'', ''D''], False),
          ([(Some [c], Some 0)], web, [], mac, [''A'', ''D''], False),
          ([(Some [c], Some 1)], web, [], mac, [''A'', ''D'', ''C''], False),
          ([], web, [], mac, [''A'', ''D'', ''C''], False)])
         [([(Some [b], 0)], []), ([], [Some [b]])])
     @ [([(Some [b], Some 0)], [], [], [], [''A'', ''D'', ''C''], False),
        ([(Some [b], Some 1)], [], [], [], [''A'', ''D'', ''C'', ''B''], False),
        ([], [], [], [], [''A'', ''D'', ''C'', ''B''], False),
        ([], [], [], [], [''A'', ''D'', ''C'', ''B''], True)]"

text \<open>
  A run of Scenario B with \<open>setTimeout\<close> and \<open>Promise.resolve().then\<close>: its Task tree,
  the state after the reset, fourteen events and the state they lead to.
\<close>

definition ex_B_tasks :: "Task list" where
  "ex_B_tasks =
     [Task ''task-0'' LOG ''A'' None None (Some 1),
      Task ''task-2'' TIMEOUT ''setTimeout'' (Some 0)
        (Some [Task ''task-1'' LOG ''B'' None None (Some 3)]) (Some 2),
      Task ''task-4'' PROMISE ''Promise.then'' None
        (Some [Task ''task-3'' LOG ''C'' None None (Some 6)]) (Some 5),
      Task ''task-5'' LOG ''D'' None None (Some 8)]"

definition ex_B_start :: EngineState where
  "ex_B_start =
     \<lparr>code = scenario_B (''setTimeout(() => {'', ''}, 0);'') ''Promise.resolve().then(() => {'',
      parsedTasks = ex_B_tasks,
      callStack = [\<lparr>id_f = ''main'', name = ''main()'', type_f = MAIN,
                     linesOfCode = Some ex_B_tasks, currentLineIndex = Some 0,
                     highlightLine = Some 0\<rparr>],
      webApis = [], microtaskQueue = [], macrotaskQueue = [], consoleOutput = [],
      isRunning = False, speed = 1000, isFinished = False, activeLine = None\<rparr>"

definition ex_B_events :: "event list" where
  "ex_B_events =
     [Step 10 ''0.1'', Step 20 ''0.2'', Tick, Step 30 ''0.3'', Step 40 ''0.4'',
      Step 50 ''0.5'', Step 60 ''0.6'', Step 70 ''0.7'', Step 80 ''0.8'', Step 90 ''0.9'',
      Tick, Step 100 ''0.1'', Step 110 ''0.2'', Step 120 ''0.3'', Step 130 ''0.4'']"

definition ex_B_final :: EngineState where
  "ex_B_final =
     ex_B_start\<lparr>callStack := [], consoleOutput := [''A'', ''D'', ''C'', ''B''],
                 isFinished := True\<rparr>"

section \<open>Pushed frames and a state for the examples\<close>

text \<open>The frame that \<open>step\<close> pushes for a dequeued microtask.\<close>

definition microFrame :: "Task \<Rightarrow> CallStackFrame" where
  "microFrame m =
     \<lparr>id_f = id_t m, name = content m, type_f = PROMISE,
      linesOfCode = Some (or_empty (children m)),
      currentLineIndex = Some 0, highlightLine = line m\<rparr>"

text \<open>The frame that \<open>step\<close> pushes for a dequeued macrotask.\<close>

definition macroFrame :: "Task \<Rightarrow> CallStackFrame" where
  "macroFrame m =
     \<lparr>id_f = id_t m,
      name = (if content m = ''setImmediate'' then ''setImmediate'' else ''setTimeout''),
      type_f = TIMEOUT,
      linesOfCode = Some (or_empty (children m)),
      currentLineIndex = Some 0, highlightLine = line m\<rparr>"

text \<open>
  A concrete state for the examples below: the stack has drained, a microtask logging C and
  a promoted timer logging B are queued, one timer with 250 ms left is pending.
\<close>

definition ex_micro :: Task where
  "ex_micro = Task ''micro-7-0.5'' PROMISE ''Promise Callback'' None
                (Some [Task ''task-2'' LOG ''C'' None None (Some 6)]) (Some 5)"

definition ex_macro :: Task where
  "ex_macro = Task ''task-1'' TIMEOUT ''Timeout Callback'' (Some 0)
                (Some [Task ''task-0'' LOG ''B'' None None (Some 3)]) (Some 2)"

definition ex_pending :: WebApiTask where
  "ex_pending = \<lparr>task = Task ''task-5'' TIMEOUT ''setTimeout'' (Some 250)
                         (Some [Task ''task-4'' LOG ''E'' None None (Some 10)]) (Some 9),
                 startTime = 1000, remainingTime = 250\<rparr>"

definition ex_drained :: EngineState where
  "ex_drained =
     \<lparr>code = [], parsedTasks = [], callStack = [], webApis = [ex_pending],
      microtaskQueue = [ex_micro], macrotaskQueue = [ex_macro],
      consoleOutput = [''A'', ''D''], isRunning = False, speed = 1000,
      isFinished = False, activeLine = None\<rparr>"

section \<open>Properties of the step transition\<close>

lemma execute_cases:
  "execute now rnd t (apis, mq, out) = (apis', mq', out') \<Longrightarrow>
     (mq' = mq \<or> mq' = mq @ [microTask now rnd t])"
  by (cases "type_t t") (auto split: if_splits)

lemma step_macro_drop:
  "step now rnd s = Inr s' \<Longrightarrow>
     macrotaskQueue s' = macrotaskQueue s \<or>
     (callStack s = [] \<and> microtaskQueue s = [] \<and> macrotaskQueue s \<noteq> [] \<and>
      macrotaskQueue s' = tl (macrotaskQueue s))"
  by (auto simp: step_def Let_def split: if_splits option.splits prod.splits)

lemma step_micro_shape:
  "step now rnd s = Inr s' \<Longrightarrow>
     microtaskQueue s' = microtaskQueue s \<or>
     (callStack s = [] \<and> microtaskQueue s \<noteq> [] \<and> microtaskQueue s' = tl (microtaskQueue s)) \<or>
     (callStack s \<noteq> [] \<and> (\<exists>t. microtaskQueue s' = microtaskQueue s @ [t]))"
  by (auto simp: step_def Let_def simp del: execute.simps
           split: if_splits option.splits prod.splits dest: execute_cases)

text \<open>
  C2. With the call stack empty and the microtask queue non-empty, \<open>step\<close> takes the head
  of the microtask queue, pushes a frame over its body with cursor 0 and leaves the
  macrotask queue as it is; and no step taken while the microtask queue is non-empty
  removes anything from the macrotask queue.
\<close>

theorem step_microtask_before_macrotask:
  "(callStack s = [] \<and> microtaskQueue s = m # ms \<longrightarrow>
      (\<exists>s'. step now rnd s = Inr s' \<and>
            microtaskQueue s' = ms \<and>
            callStack s' = [microFrame m] \<and>
            macrotaskQueue s' = macrotaskQueue s))
   \<and> (microtaskQueue s \<noteq> [] \<and> step now rnd s = Inr s2 \<longrightarrow>
        macrotaskQueue s2 = macrotaskQueue s)"
proof (intro conjI impI)
  assume "callStack s = [] \<and> microtaskQueue s = m # ms"
  then show "\<exists>s'. step now rnd s = Inr s' \<and> microtaskQueue s' = ms \<and>
                  callStack s' = [microFrame m] \<and> macrotaskQueue s' = macrotaskQueue s"
    by (simp add: step_def microFrame_def)
next
  assume "microtaskQueue s \<noteq> [] \<and> step now rnd s = Inr s2"
  then show "macrotaskQueue s2 = macrotaskQueue s"
    using step_macro_drop [of now rnd s s2] by auto
qed

text \<open>
  C10. A step that returns leaves the code text, the parsed task tree and the speed
  setting as they were: the new state is the old one with at most the call stack, the
  pending set, the two queues, the output log, the finished and running flags and the
  highlighted line replaced.
\<close>

theorem step_frame:
  "step now rnd s = Inr s' \<Longrightarrow>
     code s' = code s \<and> parsedTasks s' = parsedTasks s \<and> speed s' = speed s \<and>
     s' = s\<lparr>callStack := callStack s', webApis := webApis s',
            microtaskQueue := microtaskQueue s', macrotaskQueue := macrotaskQueue s',
            consoleOutput := consoleOutput s', isRunning := isRunning s',
            isFinished := isFinished s', activeLine := activeLine s'\<rparr>"
  by (auto simp: step_def Let_def split: if_splits option.splits prod.splits)

theorem step_frame_witness:
  "step 7 ''0.5'' ex_drained = Inr (ex_drained\<lparr>callStack := [microFrame ex_micro],
                                               microtaskQueue := [], activeLine := Some 5\<rparr>)
   \<and> code (ex_drained\<lparr>callStack := [microFrame ex_micro],
                       microtaskQueue := [], activeLine := Some 5\<rparr>) = code ex_drained"
proof -
  have h: "step 7 ''0.5'' ex_drained =
             Inr (ex_drained\<lparr>callStack := [microFrame ex_micro],
                              microtaskQueue := [], activeLine := Some 5\<rparr>)"
    by (simp add: step_def ex_drained_def ex_micro_def microFrame_def)
  show ?thesis using h step_frame [OF h] by simp
qed

theorem step_microtask_before_macrotask_witness:
  "callStack ex_drained = [] \<and> microtaskQueue ex_drained = [ex_micro] \<and>
   step 7 ''0.5'' ex_drained = Inr (ex_drained\<lparr>callStack := [microFrame ex_micro],
                                               microtaskQueue := [], activeLine := Some 5\<rparr>) \<and>
   (\<exists>s'. step 7 ''0.5'' ex_drained = Inr s' \<and> microtaskQueue s' = [] \<and>
         callStack s' = [microFrame ex_micro] \<and> macrotaskQueue s' = [ex_macro]) \<and>
   macrotaskQueue (ex_drained\<lparr>callStack := [microFrame ex_micro],
                                 microtaskQueue := [], activeLine := Some 5\<rparr>) = [ex_macro]"
proof -
  have h: "callStack ex_drained = [] \<and> microtaskQueue ex_drained = ex_micro # []"
    by (simp add: ex_drained_def)
  have m: "macrotaskQueue ex_drained = [ex_macro]"
    by (simp add: ex_drained_def)
  have e: "step 7 ''0.5'' ex_drained =
             Inr (ex_drained\<lparr>callStack := [microFrame ex_micro],
                              microtaskQueue := [], activeLine := Some 5\<rparr>)"
    by (simp add: step_def ex_drained_def ex_micro_def microFrame_def)
  show ?thesis
    using h m e
      step_microtask_before_macrotask [of ex_drained ex_micro "[]" 7 "''0.5''"
        "ex_drained\<lparr>callStack := [microFrame ex_micro], microtaskQueue := [],
                     activeLine := Some 5\<rparr>"]
    by simp
qed

section \<open>Properties of the timer advancer\<close>

lemma forEach_api_eq:
  "forEach_api xs (u, m, h) =
     (u @ map (\<lambda>a. a\<lparr>remainingTime := remainingTime a - 100\<rparr>)
              (filter (\<lambda>a. \<not> remainingTime a \<le> 0) xs),
      m @ map promote (filter (\<lambda>a. remainingTime a \<le> 0) xs),
      h \<or> xs \<noteq> [])"
  by (induction xs arbitrary: u m h) auto

lemma tick_eq:
  "tick s =
     s\<lparr>webApis := map (\<lambda>a. a\<lparr>remainingTime := remainingTime a - 100\<rparr>)
                     (filter (\<lambda>a. \<not> remainingTime a \<le> 0) (webApis s)),
       macrotaskQueue := macrotaskQueue s
                         @ map promote (filter (\<lambda>a. remainingTime a \<le> 0) (webApis s))\<rparr>"
  by (cases "webApis s = []") (simp_all add: tick_def forEach_api_eq)


section \<open>First in, first out\<close>

text \<open>
  C7. Each queue changes only at its two ends. A step that returns leaves the microtask
  queue as it is, or appends one entry at its tail, or removes its head and pushes the
  frame of that head; it leaves the macrotask queue as it is or removes its head and
  pushes the frame of that head. A tick leaves the microtask queue as it is and appends
  to the tail of the macrotask queue.
\<close>

theorem queues_fifo:
  "(step now rnd s = Inr s' \<longrightarrow>
      (microtaskQueue s' = microtaskQueue s
       \<or> (\<exists>t. microtaskQueue s' = microtaskQueue s @ [t])
       \<or> (microtaskQueue s = hd (microtaskQueue s) # microtaskQueue s' \<and>
          callStack s' = callStack s @ [microFrame (hd (microtaskQueue s))]))
      \<and> (macrotaskQueue s' = macrotaskQueue s
         \<or> (macrotaskQueue s = hd (macrotaskQueue s) # macrotaskQueue s' \<and>
            callStack s' = callStack s @ [macroFrame (hd (macrotaskQueue s))])))
   \<and> microtaskQueue (tick s) = microtaskQueue s
   \<and> (\<exists>a. macrotaskQueue (tick s) = macrotaskQueue s @ a)"
proof (intro conjI impI)
  assume h: "step now rnd s = Inr s'"
  show "microtaskQueue s' = microtaskQueue s
       \<or> (\<exists>t. microtaskQueue s' = microtaskQueue s @ [t])
       \<or> (microtaskQueue s = hd (microtaskQueue s) # microtaskQueue s' \<and>
          callStack s' = callStack s @ [microFrame (hd (microtaskQueue s))])"
    using h
    by (auto simp: step_def Let_def microFrame_def simp del: execute.simps
             split: if_splits option.splits prod.splits dest: execute_cases)
  show "macrotaskQueue s' = macrotaskQueue s
         \<or> (macrotaskQueue s = hd (macrotaskQueue s) # macrotaskQueue s' \<and>
            callStack s' = callStack s @ [macroFrame (hd (macrotaskQueue s))])"
    using h
    by (auto simp: step_def Let_def macroFrame_def simp del: execute.simps
             split: if_splits option.splits prod.splits)
next
  show "microtaskQueue (tick s) = microtaskQueue s"
    by (subst tick_eq) simp
  show "\<exists>a. macrotaskQueue (tick s) = macrotaskQueue s @ a"
    by (subst tick_eq) simp
qed

theorem queues_fifo_witness:
  "step 7 ''0.5'' ex_drained = Inr (ex_drained\<lparr>callStack := [microFrame ex_micro],
                                               microtaskQueue := [], activeLine := Some 5\<rparr>)
   \<and> microtaskQueue ex_drained = [ex_micro]
   \<and> macrotaskQueue (tick ex_drained) = [ex_macro]"
proof -
  have h: "step 7 ''0.5'' ex_drained =
             Inr (ex_drained\<lparr>callStack := [microFrame ex_micro],
                              microtaskQueue := [], activeLine := Some 5\<rparr>)"
    by (simp add: step_def ex_drained_def ex_micro_def microFrame_def)
  have t: "macrotaskQueue (tick ex_drained) = [ex_macro]"
    by (simp add: tick_def ex_drained_def ex_pending_def)
  show ?thesis
    using h t queues_fifo [of 7 "''0.5''" ex_drained
        "ex_drained\<lparr>callStack := [microFrame ex_micro], microtaskQueue := [],
                     activeLine := Some 5\<rparr>"]
    by (simp add: ex_drained_def)
qed

section \<open>Properties of the parser\<close>

lemma balance_after_Suc:
  "s \<le> k \<Longrightarrow> balance_after b lines s k = balance_after (b + line_delta (lines ! s)) lines (Suc s) k"
  by (cases "k = s") (simp_all add: balance_after_def upt_conv_Cons)

lemma balance_after_self:
  "balance_after b lines s s = b + line_delta (lines ! s)"
  by (simp add: balance_after_def)

lemma findClose_char:
  "endLine \<le> length lines \<Longrightarrow> j \<le> endLine \<Longrightarrow>
     \<exists>r. findClose lines j endLine b = Inr r \<and> j \<le> r \<and> r \<le> endLine \<and>
         (r < endLine \<longrightarrow> balance_after b lines j r = 0) \<and>
         (\<forall>k. j \<le> k \<and> k < r \<longrightarrow> balance_after b lines j k \<noteq> 0)"
proof (induction lines j endLine b rule: findClose.induct)
  case (1 lines j endLine balance)
  show ?case
  proof (cases "j < endLine")
    case False
    with "1.prems" show ?thesis by (simp add: findClose.simps)
  next
    case True
    with "1.prems" have l: "nth_opt lines j = Some (lines ! j)"
      by (simp add: nth_opt_def)
    define b2 where "b2 = balance + line_delta (lines ! j)"
    have b2: "b2 = (let b1 = (if includes_str (lines ! j) ''{'' then balance + 1 else balance)
                    in if includes_str (lines ! j) ''}'' then b1 - 1 else b1)"
      by (simp add: b2_def line_delta_def)
    show ?thesis
    proof (cases "b2 = 0")
      case z: True
      have "findClose lines j endLine balance = Inr j"
        using True l z b2 by (subst findClose.simps) (simp add: Let_def)
      with True z show ?thesis
        by (simp add: balance_after_self b2_def)
    next
      case nz: False
      have eq: "findClose lines j endLine balance = findClose lines (j + 1) endLine b2"
        using True l nz b2 by (subst findClose.simps) (simp add: Let_def)
      from True have j1: "j + 1 \<le> endLine" by simp
      have "\<exists>r. findClose lines (j + 1) endLine b2 = Inr r \<and> j + 1 \<le> r \<and> r \<le> endLine \<and>
              (r < endLine \<longrightarrow> balance_after b2 lines (j + 1) r = 0) \<and>
              (\<forall>k. j + 1 \<le> k \<and> k < r \<longrightarrow> balance_after b2 lines (j + 1) k \<noteq> 0)"
        using "1.IH" [OF True l refl refl _ "1.prems"(1) j1] nz b2 by (simp add: Let_def)
      then obtain r where r: "findClose lines (j + 1) endLine b2 = Inr r" "j + 1 \<le> r"
          "r \<le> endLine" "r < endLine \<longrightarrow> balance_after b2 lines (j + 1) r = 0"
          "\<forall>k. j + 1 \<le> k \<and> k < r \<longrightarrow> balance_after b2 lines (j + 1) k \<noteq> 0"
        by blast
      have shift: "\<And>k. j + 1 \<le> k \<Longrightarrow>
                     balance_after balance lines j k = balance_after b2 lines (j + 1) k"
        using balance_after_Suc [of j _ balance lines] by (simp add: b2_def)
      have "\<forall>k. j \<le> k \<and> k < r \<longrightarrow> balance_after balance lines j k \<noteq> 0"
      proof (intro allI impI)
        fix k assume k: "j \<le> k \<and> k < r"
        show "balance_after balance lines j k \<noteq> 0"
        proof (cases "k = j")
          case True
          with nz show ?thesis by (simp add: balance_after_self b2_def)
        next
          case False
          with k have "j + 1 \<le> k" by simp
          with k r(5) shift show ?thesis by simp
        qed
      qed
      with r eq shift show ?thesis by auto
    qed
  qed
qed


lemma findClose_total:
  "endLine \<le> length lines \<Longrightarrow> \<exists>k. findClose lines j endLine b = Inr k"
proof (induction lines j endLine b rule: findClose.induct)
  case (1 lines j endLine balance)
  show ?case
  proof (cases "j < endLine")
    case False
    then show ?thesis by (simp add: findClose.simps)
  next
    case True
    with "1.prems" have l: "nth_opt lines j = Some (lines ! j)"
      by (simp add: nth_opt_def)
    show ?thesis
      using True l "1.IH" [OF True l refl refl _ "1.prems"]
      by (subst findClose.simps) (auto simp: Let_def)
  qed
qed

lemma parseBlock_done:
  "\<not> i < endLine \<Longrightarrow> parseBlock lines i endLine c acc = Inr (acc, c)"
  by (simp add: parseBlock.simps)

lemma parseBlock_skip:
  "i < endLine \<Longrightarrow> i < length lines \<Longrightarrow> \<not> recognised (lines ! i) \<Longrightarrow>
     parseBlock lines i endLine c acc = parseBlock lines (i + 1) endLine c acc"
  by (subst parseBlock.simps)
     (auto simp: recognised_def nth_opt_def Let_def split: option.splits)

lemma parseBlock_log:
  "i < endLine \<Longrightarrow> i < length lines \<Longrightarrow> trim (lines ! i) \<noteq> [] \<Longrightarrow>
   \<not> startsWith (trim (lines ! i)) ''//'' \<Longrightarrow> logMatch (trim (lines ! i)) = Some msg \<Longrightarrow>
     parseBlock lines i endLine c acc =
       parseBlock lines (i + 1) endLine (c + 1)
         (acc @ [Task (genId c) LOG msg None None (Some (i + 1))])"
  by (subst parseBlock.simps) (simp add: nth_opt_def Let_def)

lemma parseBlock_open:
  "i < endLine \<Longrightarrow> i < length lines \<Longrightarrow> trim (lines ! i) \<noteq> [] \<Longrightarrow>
   \<not> startsWith (trim (lines ! i)) ''//'' \<Longrightarrow> logMatch (trim (lines ! i)) = None \<Longrightarrow>
   opener_of (trim (lines ! i)) = Some k \<Longrightarrow>
   findClose lines (i + 1) endLine 1 = Inr j \<Longrightarrow>
   parseBlock lines (i + 1) j c [] = Inr (cs, c') \<Longrightarrow>
     parseBlock lines i endLine c acc =
       parseBlock lines (j + 1) endLine (c' + 1)
         (acc @ [callbackTask k (trim (lines ! i)) (closingLine lines j) (genId c') cs i])"
  by (subst parseBlock.simps) (simp add: nth_opt_def Let_def)

lemma parseBlock_total:
  "endLine \<le> length lines \<Longrightarrow> \<exists>ts n. parseBlock lines i endLine c acc = Inr (ts, n)"
proof (induction lines i endLine c acc rule: parseBlock.induct)
  case (1 lines i endLine idCounter blockTasks)
  show ?case
  proof (cases "i < endLine")
    case False
    then show ?thesis by (simp add: parseBlock_done)
  next
    case True
    with "1.prems" have il: "i < length lines" by simp
    then have l: "nth_opt lines i = Some (lines ! i)"
      by (simp add: nth_opt_def)
    define rawLine where "rawLine = trim (lines ! i)"
    show ?thesis
    proof (cases "rawLine = [] \<or> startsWith rawLine ''//''")
      case skip: True
      then have "\<not> recognised (lines ! i)"
        by (auto simp: recognised_def rawLine_def Let_def)
      with "1.IH"(1) [OF True l rawLine_def skip "1.prems"] True il
      show ?thesis by (simp add: parseBlock_skip)
    next
      case noskip: False
      show ?thesis
      proof (cases "logMatch rawLine")
        case (Some msg)
        from "1.IH"(5) [OF True l rawLine_def noskip Some "1.prems"] True il noskip Some
        show ?thesis
          by (simp add: parseBlock_log rawLine_def)
      next
        case nolog: None
        show ?thesis
        proof (cases "opener_of rawLine")
          case None
          with nolog have "\<not> recognised (lines ! i)"
            by (auto simp: recognised_def rawLine_def Let_def)
          with "1.IH"(2) [OF True l rawLine_def noskip nolog None "1.prems"] True il
          show ?thesis by (simp add: parseBlock_skip)
        next
          case (Some k)
          obtain j where j: "findClose lines (i + 1) endLine 1 = Inr j"
            using findClose_total [OF "1.prems"] by blast
          with True have jb: "i + 1 \<le> j" "j \<le> endLine"
            using findClose_bounds [OF j] by auto
          with "1.prems" have jl: "j \<le> length lines" by simp
          obtain cs n where cs: "parseBlock lines (i + 1) j idCounter [] = Inr (cs, n)"
            using "1.IH"(3) [OF True l rawLine_def noskip nolog Some j jl] by blast
          from "1.IH"(4) [OF True l rawLine_def noskip nolog Some j cs refl "1.prems"]
               True il noskip nolog Some j cs
          show ?thesis
            by (simp add: parseBlock_open [where j = j] rawLine_def)
        qed
      qed
    qed
  qed
qed






lemma ids_of_append: "ids_of (xs @ ys) = ids_of xs \<union> ids_of ys"
  by (auto simp: ids_of_def)

lemma ids_of_Nil: "ids_of [] = {}"
  by (simp add: ids_of_def)

lemma ids_of_log: "ids_of [Task i LOG m None None l] = {i}"
  by (simp add: ids_of_def)

lemma ids_of_callbackTask:
  "ids_of [callbackTask k raw cl ident cs i] = insert ident (ids_of cs)"
  by (cases k) (auto simp: ids_of_def)

lemma parseBlock_ids:
  "endLine \<le> length lines \<Longrightarrow> parseBlock lines i endLine c acc = Inr (ts, n) \<Longrightarrow>
     c \<le> n \<and> ids_of ts = ids_of acc \<union> genId ` {c..<n}"
proof (induction lines i endLine c acc arbitrary: ts n rule: parseBlock.induct)
  case (1 lines i endLine idCounter blockTasks)
  show ?case
  proof (cases "i < endLine")
    case False
    with "1.prems" show ?thesis by (simp add: parseBlock_done)
  next
    case True
    with "1.prems" have il: "i < length lines" by simp
    then have l: "nth_opt lines i = Some (lines ! i)"
      by (simp add: nth_opt_def)
    define rawLine where "rawLine = trim (lines ! i)"
    show ?thesis
    proof (cases "rawLine = [] \<or> startsWith rawLine ''//''")
      case skip: True
      then have "\<not> recognised (lines ! i)"
        by (auto simp: recognised_def rawLine_def Let_def)
      with "1.prems" True il
      have "parseBlock lines (i + 1) endLine idCounter blockTasks = Inr (ts, n)"
        by (simp add: parseBlock_skip)
      from "1.IH"(1) [OF True l rawLine_def skip "1.prems"(1) this]
      show ?thesis .
    next
      case noskip: False
      show ?thesis
      proof (cases "logMatch rawLine")
        case (Some msg)
        define t0 where "t0 = Task (genId idCounter) LOG msg None None (Some (i + 1))"
        from "1.prems" True il noskip Some
        have "parseBlock lines (i + 1) endLine (idCounter + 1) (blockTasks @ [t0]) = Inr (ts, n)"
          by (simp add: parseBlock_log rawLine_def t0_def)
        from "1.IH"(5) [OF True l rawLine_def noskip Some "1.prems"(1) this [unfolded t0_def]]
        have ih: "idCounter + 1 \<le> n"
          "ids_of ts = ids_of (blockTasks @ [t0]) \<union> genId ` {idCounter + 1..<n}"
          by (simp_all add: t0_def)
        have "{idCounter..<n} = insert idCounter {idCounter + 1..<n}"
          using ih(1) by auto
        with ih show ?thesis
          by (simp add: ids_of_append t0_def ids_of_log)
      next
        case nolog: None
        show ?thesis
        proof (cases "opener_of rawLine")
          case None
          with nolog have "\<not> recognised (lines ! i)"
            by (auto simp: recognised_def rawLine_def Let_def)
          with "1.prems" True il
          have "parseBlock lines (i + 1) endLine idCounter blockTasks = Inr (ts, n)"
            by (simp add: parseBlock_skip)
          from "1.IH"(2) [OF True l rawLine_def noskip nolog None "1.prems"(1) this]
          show ?thesis .
        next
          case (Some k)
          obtain j where j: "findClose lines (i + 1) endLine 1 = Inr j"
            using findClose_total [OF "1.prems"(1)] by blast
          with True have jb: "i + 1 \<le> j" "j \<le> endLine"
            using findClose_bounds [OF j] by auto
          with "1.prems" have jl: "j \<le> length lines" by simp
          obtain cs m where cs: "parseBlock lines (i + 1) j idCounter [] = Inr (cs, m)"
            using parseBlock_total [OF jl] by blast
          define t0 where
            "t0 = callbackTask k rawLine (closingLine lines j) (genId m) cs i"
          from "1.prems" True il noskip nolog Some j cs
          have rest: "parseBlock lines (j + 1) endLine (m + 1) (blockTasks @ [t0]) = Inr (ts, n)"
            by (simp add: parseBlock_open [where j = j] rawLine_def t0_def)
          from "1.IH"(3) [OF True l rawLine_def noskip nolog Some j jl cs]
          have body: "idCounter \<le> m" "ids_of cs = genId ` {idCounter..<m}"
            by (simp_all add: ids_of_Nil)
          from "1.IH"(4) [OF True l rawLine_def noskip nolog Some j cs refl "1.prems"(1)
                            rest [unfolded t0_def]]
          have ih: "m + 1 \<le> n"
            "ids_of ts = ids_of (blockTasks @ [t0]) \<union> genId ` {m + 1..<n}"
            by (simp_all add: t0_def)
          have "{idCounter..<n} = {idCounter..<m} \<union> insert m {m + 1..<n}"
            using ih(1) body(1) by auto
          with ih body show ?thesis
            by (simp add: ids_of_append t0_def ids_of_callbackTask image_Un Un_ac)
        qed
      qed
    qed
  qed
qed

text \<open>
  C4. Two calls of the parser on the same text return the same Task tree, identifiers
  included (so the trees are equal up to a relabelling of identifiers, the identity), and
  leave the same counter, whatever the counter held before each call: the counter is set
  to 0 before the first identifier is drawn, and the identifiers of the tree are
  \<open>task-0\<close>, ..., \<open>task-(n-1)\<close>, where \<open>n\<close> is the counter that the call leaves.
\<close>

theorem parseCode_deterministic:
  "parseCode source c1 = parseCode source c2 \<and>
   (parseCode source c1 = Inr (ts, n) \<longrightarrow> ids_of ts = genId ` {..<n})"
proof
  show "parseCode source c1 = parseCode source c2"
    by (simp add: parseCode_def)
  show "parseCode source c1 = Inr (ts, n) \<longrightarrow> ids_of ts = genId ` {..<n}"
    using parseBlock_ids [of "length (split_lines source)" "split_lines source" 0 0 "[]" ts n]
    by (simp add: parseCode_def Let_def ids_of_Nil atLeast0LessThan)
qed

theorem parseCode_deterministic_witness:
  "parseCode source_A 7 = parseCode source_A 0 \<and>
   parseCode source_A 7 = Inr ([Task ''task-0'' LOG ''A'' None None (Some 1)], 1) \<and>
   ids_of [Task ''task-0'' LOG ''A'' None None (Some 1)] = genId ` {..<1}"
proof -
  have h: "parseCode source_A 7 = Inr ([Task ''task-0'' LOG ''A'' None None (Some 1)], 1)"
    by code_simp
  show ?thesis
    using h parseCode_deterministic
              [of source_A 7 0 "[Task ''task-0'' LOG ''A'' None None (Some 1)]" 1]
    by blast
qed

text \<open>
  C6 as stated fails. In \<open>ex_two_braces\<close> the scan for the timer of line 1 starts with the
  balance 1 on the second line, which opens a microtask (balance 2); the third line holds
  two close braces and takes the balance to 1, not to 0, so that the scan runs to the end
  of the range (4), where a count of every occurrence stops at the third line (index 2).
\<close>

theorem findClose_counts_braces_once_per_occurrence_counterexample:
  "findClose ex_two_braces 1 4 1 = Inr 4 \<and> findClose_spec ex_two_braces 1 4 1 = Inr 2 \<and>
   count_char (CHR ''}'') (ex_two_braces ! 2) = 2 \<and>
   balance_after 2 ex_two_braces 2 2 = 1"
  by (simp add: findClose.simps findClose_spec.simps ex_two_braces_def nth_opt_def
        count_char_def balance_after_def line_delta_def)

text \<open>
  C6, amended. The scan started with the balance 1 at line \<open>j\<close> of a range within the text
  adds, for each line, one if the line contains an open brace and takes off one if it
  contains a close brace, whatever the number of occurrences. It returns the first line of
  the range after which the balance is 0, and the end of the range if there is none.
\<close>

theorem findClose_line_balance:
  "endLine \<le> length lines \<Longrightarrow> j \<le> endLine \<Longrightarrow>
     \<exists>r. findClose lines j endLine 1 = Inr r \<and> j \<le> r \<and> r \<le> endLine \<and>
         (r < endLine \<longrightarrow> balance_after 1 lines j r = 0) \<and>
         (\<forall>k. j \<le> k \<and> k < r \<longrightarrow> balance_after 1 lines j k \<noteq> 0)"
  by (rule findClose_char)

theorem findClose_line_balance_witness:
  "4 \<le> length ex_two_braces \<and> (1::nat) \<le> 4 \<and>
   (\<exists>r. findClose ex_two_braces 1 4 1 = Inr r \<and> 1 \<le> r \<and> r \<le> 4 \<and>
         (r < 4 \<longrightarrow> balance_after 1 ex_two_braces 1 r = 0) \<and>
         (\<forall>k. 1 \<le> k \<and> k < r \<longrightarrow> balance_after 1 ex_two_braces 1 k \<noteq> 0))"
proof -
  have h: "4 \<le> length ex_two_braces" by (simp add: ex_two_braces_def)
  have g: "(1::nat) \<le> 4" by simp
  show ?thesis using h g findClose_line_balance [OF h g] by blast
qed



section \<open>The finished flag\<close>

lemma step_finished_inv:
  "finished_inv s \<Longrightarrow> step now rnd s = Inr s' \<Longrightarrow> finished_inv s'"
  by (auto simp: finished_inv_def all_empty_def step_def Let_def simp del: execute.simps
           split: if_splits option.splits prod.splits)

lemma tick_finished_inv:
  assumes "finished_inv s"
  shows "finished_inv (tick s)"
proof (cases "isFinished s")
  case True
  with assms have "webApis s = []"
    by (simp add: finished_inv_def all_empty_def)
  then have "tick s = s" by (simp add: tick_def)
  with assms show ?thesis by simp
next
  case False
  then show ?thesis
    by (subst tick_eq) (simp add: finished_inv_def)
qed

lemma reset_finished_inv:
  "resetEngine newCode autoPlay prev idCounter = Inr (s, idCounter') \<Longrightarrow> finished_inv s"
  by (auto simp: resetEngine_def finished_inv_def initialState_def Let_def
           split: sum.splits prod.splits)

lemma reachable_finished_inv: "reachable s \<Longrightarrow> finished_inv s"
proof (induction rule: reachable.induct)
  case (mount c)
  show ?case by (simp add: finished_inv_def initialState_def)
next
  case (reset newCode autoPlay prev idCounter s idCounter')
  then show ?case by (rule reset_finished_inv)
next
  case (step s now rnd s')
  then show ?case by (blast intro: step_finished_inv)
next
  case (tick s)
  then show ?case by (blast intro: tick_finished_inv)
next
  case (toggle s editorCode idCounter s' idCounter')
  show ?case
  proof (cases "isFinished s")
    case True
    with toggle.hyps(2) show ?thesis
      by (simp add: togglePlay_def reset_finished_inv)
  next
    case False
    with toggle.hyps(2) show ?thesis
      by (auto simp: togglePlay_def finished_inv_def)
  qed
next
  case (speed s v)
  then show ?case by (simp add: finished_inv_def handleSpeedChange_def all_empty_def)
qed

lemma step_all_empty:
  "all_empty s \<Longrightarrow>
     step now rnd s = Inr (s\<lparr>isFinished := True, activeLine := None, isRunning := False\<rparr>)"
  by (simp add: all_empty_def step_def)

lemma step_not_all_empty:
  "\<not> all_empty s \<Longrightarrow> step now rnd s = Inr s' \<Longrightarrow> isFinished s' = (isFinished s \<and> callStack s \<noteq> [] \<or> isFinished s \<and> (microtaskQueue s \<noteq> [] \<or> macrotaskQueue s \<noteq> []))"
  by (auto simp: all_empty_def step_def Let_def simp del: execute.simps
           split: if_splits option.splits prod.splits)

text \<open>
  C3 as stated fails. In Scenario A the first step logs A and the second pops the main
  frame: after it the call stack, the pending set and both queues are empty and the
  finished flag is not set.
\<close>

theorem finished_iff_all_empty_counterexample:
  "run_source source_A [Step 0 ''0.5'', Step 0 ''0.5''] = Inr ex_A_drained \<and>
   all_empty ex_A_drained \<and> \<not> isFinished ex_A_drained"
  by code_simp

text \<open>
  C3, amended. At every reachable state a set finished flag implies that the call stack,
  the pending set and both queues are empty. After a step the flag is set if and only if
  all four were empty when the step was taken; a step taken with all four empty sets it
  and leaves them empty. At a reachable state with the flag set a step returns the state
  itself.
\<close>

theorem finished_after_step:
  "reachable s \<Longrightarrow>
     (isFinished s \<longrightarrow> all_empty s) \<and>
     (step now rnd s = Inr s' \<longrightarrow> (isFinished s' \<longleftrightarrow> all_empty s)) \<and>
     (all_empty s \<longrightarrow> (\<exists>s2. step now rnd s = Inr s2 \<and> isFinished s2 \<and> all_empty s2)) \<and>
     (isFinished s \<longrightarrow> step now rnd s = Inr s)"
proof -
  assume "reachable s"
  then have inv: "finished_inv s" by (rule reachable_finished_inv)
  have 1: "isFinished s \<longrightarrow> all_empty s"
    using inv by (simp add: finished_inv_def)
  have 2: "step now rnd s = Inr s' \<longrightarrow> (isFinished s' \<longleftrightarrow> all_empty s)"
  proof
    assume h: "step now rnd s = Inr s'"
    show "isFinished s' \<longleftrightarrow> all_empty s"
    proof (cases "all_empty s")
      case True
      with h step_all_empty [OF True, of now rnd] show ?thesis by auto
    next
      case False
      with 1 have "\<not> isFinished s" by blast
      with False step_not_all_empty [OF False h] show ?thesis by simp
    qed
  qed
  have 3: "all_empty s \<longrightarrow> (\<exists>s2. step now rnd s = Inr s2 \<and> isFinished s2 \<and> all_empty s2)"
    using step_all_empty [of s now rnd] by (auto simp: all_empty_def)
  have 4: "isFinished s \<longrightarrow> step now rnd s = Inr s"
  proof
    assume f: "isFinished s"
    with inv have e: "all_empty s" "\<not> isRunning s" "activeLine s = None"
      by (simp_all add: finished_inv_def)
    have "s\<lparr>isFinished := True, activeLine := None, isRunning := False\<rparr> = s"
      using f e by simp
    with step_all_empty [OF e(1), of now rnd] show "step now rnd s = Inr s" by simp
  qed
  from 1 2 3 4 show ?thesis by blast
qed


lemma reachable_run: "reachable s \<Longrightarrow> run es s = Inr s' \<Longrightarrow> reachable s'"
proof (induction es arbitrary: s)
  case Nil
  then show ?case by simp
next
  case (Cons e es)
  show ?case
  proof (cases e)
    case (Step now rnd)
    with Cons.prems(2) obtain s1 where s1: "step now rnd s = Inr s1" "run es s1 = Inr s'"
      by (auto split: sum.splits)
    from Cons.prems(1) s1(1) have "reachable s1" by (rule reachable.step)
    then show ?thesis using s1(2) by (rule Cons.IH)
  next
    case Tick
    with Cons.prems(2) have "run es (tick s) = Inr s'" by simp
    with reachable.tick [OF Cons.prems(1)] show ?thesis by (blast intro: Cons.IH)
  qed
qed

lemma reachable_run_source: "run_source source es = Inr s' \<Longrightarrow> reachable s'"
proof -
  assume a: "run_source source es = Inr s'"
  then obtain s0 n where r: "resetEngine source False initialState 0 = Inr (s0, n)"
      and e: "run es s0 = Inr s'"
    by (auto simp: run_source_def split: sum.splits prod.splits)
  from r have "reachable s0" by (rule reachable.reset)
  then show "reachable s'" using e by (rule reachable_run)
qed

lemma run_source_A:
  "run_source source_A [Step 0 ''0.5'', Step 0 ''0.5''] = Inr ex_A_drained"
  "run_source source_A [Step 0 ''0.5'', Step 0 ''0.5'', Step 0 ''0.5'']
     = Inr (ex_A_drained\<lparr>isFinished := True\<rparr>)"
  by code_simp+

theorem finished_after_step_witness:
  "reachable (ex_A_drained\<lparr>isFinished := True\<rparr>) \<and>
   isFinished (ex_A_drained\<lparr>isFinished := True\<rparr>) \<and>
   all_empty (ex_A_drained\<lparr>isFinished := True\<rparr>) \<and>
   step 3 ''0.25'' (ex_A_drained\<lparr>isFinished := True\<rparr>) = Inr (ex_A_drained\<lparr>isFinished := True\<rparr>)"
proof -
  have r: "reachable (ex_A_drained\<lparr>isFinished := True\<rparr>)"
    by (rule reachable_run_source [OF run_source_A(2)])
  have f: "isFinished (ex_A_drained\<lparr>isFinished := True\<rparr>)" by simp
  show ?thesis
    using r f finished_after_step [OF r, of 3 "''0.25''" "ex_A_drained\<lparr>isFinished := True\<rparr>"]
    by blast
qed

section \<open>Registering a microtask\<close>

text \<open>
  C5 as stated fails. After a reset and one step, the entry queued for a
  \<open>Promise.resolve().then\<close> registration and the entry queued for a \<open>queueMicrotask\<close>
  registration carry the same label; only \<open>process.nextTick\<close> has a label of its own.
\<close>

theorem microtask_label_per_spelling_counterexample:
  "queued_labels source_then = [''Promise Callback''] \<and>
   queued_labels source_queueMicrotask = [''Promise Callback''] \<and>
   queued_labels source_nextTick = [''process.nextTick'']"
  by code_simp

text \<open>
  C5, amended. When the instruction at the cursor of the top frame is a microtask
  registration, the step returns, pushes no frame and leaves the pending set, the
  macrotask queue and the output log as they are. If the registration has a body, the step
  appends one Task to the microtask queue: its identifier is \<open>micro-\<close>, the clock reading,
  a dash and the random number, which no identifier of the parser equals; its body and
  source line are those of the registration; its label is \<open>process.nextTick\<close> if that is
  the label of the registration and \<open>Promise Callback\<close> otherwise. If the registration
  has no body, the microtask queue stays as it is.
\<close>

theorem step_enqueues_microtask:
  "callStack s \<noteq> [] \<Longrightarrow> linesOfCode (last (callStack s)) = Some loc \<Longrightarrow>
   currentLineIndex (last (callStack s)) = Some idx \<Longrightarrow> idx < length loc \<Longrightarrow>
   type_t (loc ! idx) = PROMISE \<Longrightarrow>
     \<exists>s'. step now rnd s = Inr s' \<and>
          microtaskQueue s' =
            microtaskQueue s @
              (case children (loc ! idx) of
                 None \<Rightarrow> []
               | Some cs \<Rightarrow>
                   [Task (''micro-'' @ show_nat now @ ''-'' @ rnd) PROMISE
                      (if content (loc ! idx) = ''process.nextTick''
                       then ''process.nextTick'' else ''Promise Callback'')
                      None (Some cs) (line (loc ! idx))]) \<and>
          length (callStack s') = length (callStack s) \<and>
          macrotaskQueue s' = macrotaskQueue s \<and> webApis s' = webApis s \<and>
          consoleOutput s' = consoleOutput s \<and>
          (\<forall>n. ''micro-'' @ show_nat now @ ''-'' @ rnd \<noteq> genId n)"
  by (cases "children (loc ! idx)") (simp_all add: step_def Let_def microTask_def genId_def)

theorem step_enqueues_microtask_witness:
  "callStack ex_registering \<noteq> [] \<and>
   (\<exists>s'. step 7 ''0.5'' ex_registering = Inr s' \<and>
         microtaskQueue s' =
           [Task (''micro-'' @ show_nat 7 @ ''-'' @ ''0.5'') PROMISE ''Promise Callback''
              None (Some []) (Some 1)])"
proof -
  have h: "callStack ex_registering \<noteq> []"
    "linesOfCode (last (callStack ex_registering)) =
       Some [Task ''task-0'' PROMISE ''queueMicrotask'' None (Some []) (Some 1)]"
    "currentLineIndex (last (callStack ex_registering)) = Some 0"
    "0 < length [Task ''task-0'' PROMISE ''queueMicrotask'' None (Some []) (Some 1)]"
    "type_t ([Task ''task-0'' PROMISE ''queueMicrotask'' None (Some []) (Some 1)] ! 0) = PROMISE"
    by (simp_all add: ex_registering_def)
  have m: "microtaskQueue ex_registering = []"
    by (simp add: ex_registering_def)
  show ?thesis
    using h(1) m step_enqueues_microtask [OF h, of 7 "''0.5''"]
    by auto
qed

section \<open>Scenario B\<close>

lemma view_tick: "view (tick s) = vtick (view s)"
  by (subst tick_eq) (simp add: view_def vtick_def filter_map o_def promote_def Let_def not_le)


lemma view_execute:
  "execute now rnd t (apis, mq, out) = (apis', mq', out') \<Longrightarrow>
     vexecute t (map (\<lambda>w. (children (task w), remainingTime w)) apis, map children mq, out)
       = (map (\<lambda>w. (children (task w), remainingTime w)) apis', map children mq', out')"
  by (cases "type_t t") (auto simp: vexecute_def microTask_def split: if_splits)

lemma view_step: "step now rnd s = Inr s' \<Longrightarrow> view s' = vstep (view s)"
proof -
  assume h: "step now rnd s = Inr s'"
  show ?thesis
  proof (cases "callStack s = []")
    case True
    with h show ?thesis
      by (cases "microtaskQueue s"; cases "macrotaskQueue s")
         (auto simp: step_def view_def vstep_def Let_def)
  next
    case ne: False
    show ?thesis
    proof (cases "linesOfCode (last (callStack s))")
      case None
      with h ne show ?thesis
        by (auto simp: step_def view_def vstep_def Let_def last_map map_butlast)
    next
      case (Some loc)
      show ?thesis
      proof (cases "currentLineIndex (last (callStack s))")
        case None
        with h ne Some show ?thesis by (simp add: step_def Let_def)
      next
        case idx: (Some idx)
        show ?thesis
        proof (cases "idx \<ge> length loc")
          case True
          with h ne Some idx show ?thesis
            by (auto simp: step_def view_def vstep_def Let_def last_map map_butlast)
        next
          case False
          obtain apis' mq' out' where
            e: "execute now rnd (loc ! idx) (webApis s, microtaskQueue s, consoleOutput s)
                  = (apis', mq', out')"
            by (cases "execute now rnd (loc ! idx) (webApis s, microtaskQueue s, consoleOutput s)")
          from h ne Some idx False e
          have s': "s' = s\<lparr>callStack := butlast (callStack s)
                                @ [(last (callStack s))\<lparr>currentLineIndex := Some (idx + 1)\<rparr>],
                           webApis := apis', microtaskQueue := mq', consoleOutput := out',
                           activeLine := (if truthy (line (loc ! idx)) then line (loc ! idx)
                                          else activeLine s)\<rparr>"
            by (simp add: step_def Let_def del: execute.simps)
          from ne Some idx False view_execute [OF e] show ?thesis
            by (simp add: s' view_def vstep_def last_map map_butlast)
        qed
      qed
    qed
  qed
qed



lemma phases_step:
  assumes "is_log ''A'' a" "type_t t = TIMEOUT" "or_zero (delay t) = 0"
    "children t = Some [b]" "is_log ''B'' b" "type_t p = PROMISE" "children p = Some [c]"
    "is_log ''C'' c" "is_log ''D'' d"
  shows "map vstep (phases [a, t, p, d] b c) =
         map (nth (phases [a, t, p, d] b c))
           [1, 2, 3, 4, 5, 6, 7, 8, 8, 10, 11, 12, 13, 14, 15, 16, 17, 18, 19, 19]"
  using assms unfolding phases_def is_log_def
  by (simp add: vstep_def vexecute_def)

lemma phases_tick:
  "map vtick (phases ts b c) =
     map (nth (phases ts b c))
       [0, 1, 9, 10, 11, 12, 13, 14, 15, 9, 10, 11, 12, 13, 14, 15, 16, 17, 18, 19]"
  unfolding phases_def
  by (simp add: vtick_def)


lemma phases_length: "length (phases ts b c) = 20"
  by (simp add: phases_def)

lemma phases_closed:
  assumes "is_log ''A'' a" "type_t t = TIMEOUT" "or_zero (delay t) = 0"
    "children t = Some [b]" "is_log ''B'' b" "type_t p = PROMISE" "children p = Some [c]"
    "is_log ''C'' c" "is_log ''D'' d"
    and v: "v \<in> set (phases [a, t, p, d] b c)"
  shows "vstep v \<in> set (phases [a, t, p, d] b c)"
    and "vtick v \<in> set (phases [a, t, p, d] b c)"
proof -
  let ?P = "phases [a, t, p, d] b c"
  let ?S = "[1, 2, 3, 4, 5, 6, 7, 8, 8, 10, 11, 12, 13, 14, 15, 16, 17, 18, 19, 19] :: nat list"
  let ?T = "[0, 1, 9, 10, 11, 12, 13, 14, 15, 9, 10, 11, 12, 13, 14, 15, 16, 17, 18, 19] :: nat list"
  from v obtain i where i: "i < 20" "v = ?P ! i"
    by (auto simp: in_set_conv_nth phases_length)
  have "list_all (\<lambda>k. k < 20) ?S" "list_all (\<lambda>k. k < 20) ?T" by simp_all
  then have b: "?S ! i < 20" "?T ! i < 20"
    using i(1) by (simp_all add: list_all_length)
  have "vstep v = map vstep ?P ! i"
    using i by (simp add: phases_length)
  also have "\<dots> = map (nth ?P) ?S ! i"
    using phases_step [OF assms(1-9)] by simp
  also have "\<dots> = ?P ! (?S ! i)"
    using i(1) by (intro nth_map) simp
  finally show "vstep v \<in> set ?P"
    using b(1) by (simp add: phases_length)
  have "vtick v = map vtick ?P ! i"
    using i by (simp add: phases_length)
  also have "\<dots> = map (nth ?P) ?T ! i"
    using phases_tick [of "[a, t, p, d]" b c] by simp
  also have "\<dots> = ?P ! (?T ! i)"
    using i(1) by (intro nth_map) simp
  finally show "vtick v \<in> set ?P"
    using b(2) by (simp add: phases_length)
qed

lemma phases_finished:
  assumes "v \<in> set (phases ts b c)" and "snd (snd (snd (snd (snd v))))"
  shows "fst (snd (snd (snd (snd v)))) = [''A'', ''D'', ''C'', ''B'']"
proof -
  have "list_all (\<lambda>v. snd (snd (snd (snd (snd v)))) \<longrightarrow>
                      fst (snd (snd (snd (snd v)))) = [''A'', ''D'', ''C'', ''B''])
          (phases ts b c)"
    by (simp add: phases_def)
  with assms show ?thesis by (simp add: list_all_iff)
qed

lemma run_in_phases:
  assumes "is_log ''A'' a" "type_t t = TIMEOUT" "or_zero (delay t) = 0"
    "children t = Some [b]" "is_log ''B'' b" "type_t p = PROMISE" "children p = Some [c]"
    "is_log ''C'' c" "is_log ''D'' d"
  shows "view s \<in> set (phases [a, t, p, d] b c) \<Longrightarrow> run es s = Inr s' \<Longrightarrow>
         view s' \<in> set (phases [a, t, p, d] b c)"
proof (induction es arbitrary: s)
  case Nil
  then show ?case by simp
next
  case (Cons e es)
  show ?case
  proof (cases e)
    case (Step now rnd)
    with Cons.prems(2) obtain s1 where s1: "step now rnd s = Inr s1" "run es s1 = Inr s'"
      by (auto split: sum.splits)
    from view_step [OF s1(1)] phases_closed(1) [OF assms Cons.prems(1)]
    have "view s1 \<in> set (phases [a, t, p, d] b c)" by simp
    then show ?thesis using s1(2) by (rule Cons.IH)
  next
    case Tick
    with Cons.prems(2) have r: "run es (tick s) = Inr s'" by simp
    from view_tick [of s] phases_closed(2) [OF assms Cons.prems(1)]
    have "view (tick s) \<in> set (phases [a, t, p, d] b c)" by simp
    then show ?thesis using r by (rule Cons.IH)
  qed
qed

lemma scenario_B_tree_shape:
  assumes "scenario_B_tree ts"
  obtains a t p d b c where "ts = [a, t, p, d]"
    "is_log ''A'' a" "type_t t = TIMEOUT" "or_zero (delay t) = 0"
    "children t = Some [b]" "is_log ''B'' b" "type_t p = PROMISE" "children p = Some [c]"
    "is_log ''C'' c" "is_log ''D'' d"
  using assms unfolding scenario_B_tree_def body_logs_def
  by (auto split: list.splits option.splits)

lemma scenario_B_tree_output:
  assumes "scenario_B_tree ts"
    and "view s0 = ([(Some ts, Some 0)], [], [], [], [], False)"
    and "run es s0 = Inr s'" and "isFinished s'"
  shows "consoleOutput s' = [''A'', ''D'', ''C'', ''B'']"
proof -
  from assms(1) obtain a t p d b c where ts: "ts = [a, t, p, d]"
    and f: "is_log ''A'' a" "type_t t = TIMEOUT" "or_zero (delay t) = 0"
    "children t = Some [b]" "is_log ''B'' b" "type_t p = PROMISE" "children p = Some [c]"
    "is_log ''C'' c" "is_log ''D'' d"
    by (rule scenario_B_tree_shape)
  have "view s0 \<in> set (phases [a, t, p, d] b c)"
    using assms(2) ts by (simp add: phases_def)
  from run_in_phases [OF f this assms(3)]
  have "view s' \<in> set (phases [a, t, p, d] b c)" .
  from phases_finished [OF this] assms(4) show ?thesis
    by (simp add: view_def)
qed

lemma scenario_B_parses:
  "list_all (\<lambda>(timer, micro).
      case parseCode (scenario_B timer micro) 0 of
        Inl e \<Rightarrow> False
      | Inr (ts, n) \<Rightarrow> scenario_B_tree ts)
     (List.product zero_delay_timers microtask_spellings)"
  by code_simp

lemma parseCode_counter: "parseCode source c = parseCode source 0"
  by (simp add: parseCode_def)

text \<open>
  C1. Take Scenario B with either zero-delay timer and any of the three microtask
  spellings, reset the engine on it, and apply any sequence of steps and ticks that
  returns a state with the finished flag set: the output log of that state is A, D, C, B.
\<close>

theorem scenario_B_output:
  assumes "timer \<in> set zero_delay_timers" and "micro \<in> set microtask_spellings"
    and "resetEngine (scenario_B timer micro) autoPlay prev idCounter = Inr (s0, n)"
    and "run es s0 = Inr s'" and "isFinished s'"
  shows "consoleOutput s' = [''A'', ''D'', ''C'', ''B'']"
proof -
  from assms(1,2) have "(timer, micro) \<in> set (List.product zero_delay_timers microtask_spellings)"
    by simp
  with scenario_B_parses
  have "case parseCode (scenario_B timer micro) 0 of
          Inl e \<Rightarrow> False | Inr (ts, n) \<Rightarrow> scenario_B_tree ts"
    by (auto simp: list_all_iff)
  then obtain ts m where p: "parseCode (scenario_B timer micro) idCounter = Inr (ts, m)"
    and t: "scenario_B_tree ts"
    by (auto simp: parseCode_counter [of _ idCounter] split: sum.splits prod.splits)
  from assms(3) p have "view s0 = ([(Some ts, Some 0)], [], [], [], [], False)"
    by (auto simp: resetEngine_def view_def initialState_def Let_def)
  from scenario_B_tree_output [OF t this assms(4,5)] show ?thesis .
qed

theorem scenario_B_output_witness:
  "(''setTimeout(() => {'', ''}, 0);'') \<in> set zero_delay_timers \<and>
   ''Promise.resolve().then(() => {'' \<in> set microtask_spellings \<and>
   resetEngine (scenario_B (''setTimeout(() => {'', ''}, 0);'') ''Promise.resolve().then(() => {'')
     False initialState 0 = Inr (ex_B_start, 6) \<and>
   run ex_B_events ex_B_start = Inr ex_B_final \<and>
   isFinished ex_B_final \<and>
   consoleOutput ex_B_final = [''A'', ''D'', ''C'', ''B'']"
proof -
  have m1: "(''setTimeout(() => {'', ''}, 0);'') \<in> set zero_delay_timers"
    by (simp add: zero_delay_timers_def)
  have m2: "''Promise.resolve().then(() => {'' \<in> set microtask_spellings"
    by (simp add: microtask_spellings_def)
  have r: "resetEngine
             (scenario_B (''setTimeout(() => {'', ''}, 0);'') ''Promise.resolve().then(() => {'')
             False initialState 0 = Inr (ex_B_start, 6)"
    by code_simp
  have e: "run ex_B_events ex_B_start = Inr ex_B_final"
    by code_simp
  have f: "isFinished ex_B_final"
    by (simp add: ex_B_final_def)
  show ?thesis
    using m1 m2 r e f scenario_B_output [OF m1 m2 r e f] by simp
qed

end
